theory Spec2Isabelle
  imports Main "HOL-Library.Sublist"
begin

text \<open>
  A model of the wiki crawler: the normalization of links to document IDs, the extraction of
  markdown links and their rewriting to local IDs, the processing of one page
  (\<open>parseSite\<close>) and the two loops of \<open>main\<close> over the entry points and over the links found.
  The browser, the HTML converters, the formatter and the file system are parameters.
\<close>

section \<open>JavaScript string primitives used by the crawler\<close>

text \<open>
  Strings are lists of characters, one \<^typ>\<open>char\<close> per code unit of the JavaScript
  string (none of the regular expressions of the source carries the \<open>u\<close> flag, so they
  all work on code units). Only code units below 256 are representable.
\<close>

text \<open>\<open>String.prototype.indexOf(searchString)\<close>: the least position at which the search
  string starts; \<open>None\<close> stands for \<open>-1\<close>.\<close>

fun indexOf :: "string \<Rightarrow> string \<Rightarrow> nat option" where
  "indexOf [] p = (if p = [] then Some 0 else None)"
| "indexOf (c # cs) p =
     (if prefix p (c # cs) then Some 0 else map_option Suc (indexOf cs p))"

text \<open>
  \<open>GetSubstitution\<close> of ECMAScript for a string pattern (no capture groups): in the
  replacement text \<open>$$\<close> stands for a dollar sign, \<open>$&\<close> for the matched text, \<open>$`\<close>
  for the text before the match and \<open>$'\<close> for the text after it; every other dollar sign is
  literal.
\<close>

fun getSubstitution :: "string \<Rightarrow> string \<Rightarrow> string \<Rightarrow> string \<Rightarrow> string" where
  "getSubstitution m bef aft (c # d # rest) =
     (if c = CHR ''$'' \<and> d = CHR ''$'' then CHR ''$'' # getSubstitution m bef aft rest
      else if c = CHR ''$'' \<and> d = CHR ''&'' then m @ getSubstitution m bef aft rest
      else if c = CHR ''$'' \<and> d = CHR ''`'' then bef @ getSubstitution m bef aft rest
      else if c = CHR ''$'' \<and> d = CHR 0x27 then aft @ getSubstitution m bef aft rest
      else c # getSubstitution m bef aft (d # rest))"
| "getSubstitution m bef aft cs = cs"

text \<open>\<open>s.replace(p, r)\<close> with a string pattern \<open>p\<close>: only the first occurrence of \<open>p\<close> is
  replaced.\<close>

definition replace :: "string \<Rightarrow> string \<Rightarrow> string \<Rightarrow> string" where
  "replace s p r =
     (case indexOf s p of
        None \<Rightarrow> s
      | Some k \<Rightarrow>
          take k s @ getSubstitution p (take k s) (drop (k + length p) s) r
            @ drop (k + length p) s)"

text \<open>\<open>s.split("/")\<close>: the segments between the separators; never the empty array.\<close>

fun split :: "char \<Rightarrow> string \<Rightarrow> string list" where
  "split sep [] = [[]]"
| "split sep (c # cs) =
     (if c = sep then [] # split sep cs
      else (case split sep cs of
              [] \<Rightarrow> [[c]]
            | seg # segs \<Rightarrow> (c # seg) # segs))"

section \<open>Identifier Normalizer\<close>

definition ID_PREFIX :: string where
  "ID_PREFIX = ''dsa-rule-''"

definition ENTRY_POINTS :: "string list" where
  "ENTRY_POINTS =
    [''index.php/regeln.html'',
     ''index.php/spezies.html'',
     ''index.php/kulturen.html'',
     ''index.php/professionen.html'',
     ''index.php/sonderfertigkeiten.html'',
     ''index.php/vor-und-nachteile.html'',
     ''index.php/magie.html'',
     ''index.php/goetterwirken.html'',
     ''index.php/ruestkammer.html'',
     ''index.php/bestiarium.html'',
     ''index.php/herbarium.html'',
     ''index.php/GifteundKrankheiten.html'',
     ''index.php/WdV18.html'']"

definition normalizeLink :: "string \<Rightarrow> string" where
  "normalizeLink link =
     replace (replace (replace link ''https://ulisses-regelwiki.de/'' [])
                ''http://ulisses-regelwiki.de/'' [])
       ''ulisses-regelwiki.de/'' []"

text \<open>The earlier revision of the crawler (\<open>src/main.ts\<close>) strips the two scheme-qualified
  prefixes only.\<close>

definition normalizeLink_v1 :: "string \<Rightarrow> string" where
  "normalizeLink_v1 link =
     replace (replace link ''https://ulisses-regelwiki.de/'' [])
       ''http://ulisses-regelwiki.de/'' []"

text \<open>\<open>subject.pop()\<close> is the last segment: \<open>split\<close> returns at least one segment
  (lemma \<open>split_not_Nil\<close> below), so \<open>pop\<close> never yields \<open>undefined\<close> here.\<close>

definition convertLinkToId :: "string \<Rightarrow> string" where
  "convertLinkToId linkTarget =
     (let subject = split CHR ''/'' (normalizeLink linkTarget)
      in replace (last subject) ''.html'' [])"

definition linkToId :: "string \<Rightarrow> string" where
  "linkToId link = ID_PREFIX @ convertLinkToId link"

definition sanitizeTitle :: "string \<Rightarrow> string" where
  "sanitizeTitle title = replace title '' - DSA Regel Wiki'' []"

section \<open>Regular expressions of the source\<close>

text \<open>
  The three regular expressions of the source are built from literal characters and greedy
  repetitions of a single character class. A greedy repetition takes as many characters of
  its class as there are and gives them back one by one while the rest of the expression
  fails. \<open>backtrack f n\<close> tries the rest \<open>f\<close> with \<open>n\<close>, \<open>n - 1\<close>, \<dots>, \<open>0\<close> repetitions
  and returns the first success; \<open>greedy cls lo r cont\<close> is the repetition of class \<open>cls\<close>
  (at least \<open>lo\<close> times) on the input \<open>r\<close>, followed by \<open>cont\<close>.
\<close>

fun backtrack :: "(nat \<Rightarrow> 'a option) \<Rightarrow> nat \<Rightarrow> 'a option" where
  "backtrack f 0 = f 0"
| "backtrack f (Suc n) =
     (case f (Suc n) of Some x \<Rightarrow> Some x | None \<Rightarrow> backtrack f n)"

definition greedy :: "(char \<Rightarrow> bool) \<Rightarrow> nat \<Rightarrow> string \<Rightarrow> (nat \<Rightarrow> 'a option) \<Rightarrow> 'a option" where
  "greedy cls lo r cont =
     backtrack (\<lambda>k. if k < lo then None else cont k) (length (takeWhile cls r))"

text \<open>The class \<open>[^[\[\])]\<close> of a link target: anything but a bracket or a closing
  parenthesis.\<close>

definition isTargetChar :: "char \<Rightarrow> bool" where
  "isTargetChar c \<longleftrightarrow> c \<noteq> CHR ''['' \<and> c \<noteq> CHR '']'' \<and> c \<noteq> CHR '')''"

text \<open>The class of \<open>.\<close>: anything but a line terminator (line feed and carriage return;
  U+2028 and U+2029 are beyond the characters modelled).\<close>

definition isLineTerminator :: "char \<Rightarrow> bool" where
  "isLineTerminator c \<longleftrightarrow> c = CHR 0x0A \<or> c = CHR 0x0D"

text \<open>
  \<open>regexMdLinks = /\[([^\[]+)\](\([^[\[\])]*\))/gm\<close> tried just after an opening bracket:
  the number of characters of the match after that bracket.
\<close>

definition regexMdLinks_at :: "string \<Rightarrow> nat option" where
  "regexMdLinks_at r =
     greedy (\<lambda>c. c \<noteq> CHR ''['') 1 r (\<lambda>k.
       if prefix '']('' (drop k r)
       then greedy isTargetChar 0 (drop (k + 2) r) (\<lambda>g.
              if prefix '')'' (drop (k + 2 + g) r) then Some (k + 2 + g + 1) else None)
       else None)"

text \<open>\<open>text.match(regexMdLinks)\<close>: the matched substrings from left to right, the search
  resuming at the end of each match. (The source treats \<open>null\<close>, the result when nothing
  matches, as the empty list.)\<close>

fun match_regexMdLinks :: "string \<Rightarrow> string list" where
  "match_regexMdLinks [] = []"
| "match_regexMdLinks (c # cs) =
     (case (if c = CHR ''['' then regexMdLinks_at cs else None) of
        Some n \<Rightarrow> (c # take n cs) # match_regexMdLinks (drop n cs)
      | None \<Rightarrow> match_regexMdLinks cs)"

text \<open>
  \<open>singleMatch = /\[([^\[]+)\]\((.*)\)/\<close> tried just after an opening bracket: the two
  captured groups.
\<close>

definition singleMatch_at :: "string \<Rightarrow> (string \<times> string) option" where
  "singleMatch_at r =
     greedy (\<lambda>c. c \<noteq> CHR ''['') 1 r (\<lambda>k.
       if prefix '']('' (drop k r)
       then greedy (\<lambda>c. \<not> isLineTerminator c) 0 (drop (k + 2) r) (\<lambda>g.
              if prefix '')'' (drop (k + 2 + g) r)
              then Some (take k r, take g (drop (k + 2) r)) else None)
       else None)"

text \<open>\<open>singleMatch.exec(s)\<close>: the groups of the leftmost match, \<open>None\<close> for \<open>null\<close>.\<close>

fun singleMatch_exec :: "string \<Rightarrow> (string \<times> string) option" where
  "singleMatch_exec [] = None"
| "singleMatch_exec (c # cs) =
     (case (if c = CHR ''['' then singleMatch_at cs else None) of
        Some groups \<Rightarrow> Some groups
      | None \<Rightarrow> singleMatch_exec cs)"

text \<open>
  \<open>/\* *\n*([^\*]+) *\*/g\<close> tried just after an asterisk: the captured group and the number
  of characters of the match after that asterisk.
\<close>

definition emphasis_at :: "string \<Rightarrow> (string \<times> nat) option" where
  "emphasis_at r =
     greedy (\<lambda>c. c = CHR '' '') 0 r (\<lambda>i.
       greedy (\<lambda>c. c = CHR 0x0A) 0 (drop i r) (\<lambda>j.
         greedy (\<lambda>c. c \<noteq> CHR ''*'') 1 (drop (i + j) r) (\<lambda>k.
           greedy (\<lambda>c. c = CHR '' '') 0 (drop (i + j + k) r) (\<lambda>l.
             if prefix ''*'' (drop (i + j + k + l) r)
             then Some (take k (drop (i + j) r), i + j + k + l + 1) else None))))"

text \<open>\<open>.replace(/\* *\n*([^\*]+) *\*/g, (_, content) => `*${content}*`)\<close>\<close>

fun repairEmphasis :: "string \<Rightarrow> string" where
  "repairEmphasis [] = []"
| "repairEmphasis (c # cs) =
     (case (if c = CHR ''*'' then emphasis_at cs else None) of
        Some (content, n) \<Rightarrow> CHR ''*'' # content @ CHR ''*'' # repairEmphasis (drop n cs)
      | None \<Rightarrow> c # repairEmphasis cs)"

text \<open>\<open>.replace(/\\#/g, "-")\<close>: every backslash followed by a hash sign becomes a dash.\<close>

fun replaceEscapedHash :: "string \<Rightarrow> string" where
  "replaceEscapedHash (c # d # cs) =
     (if c = CHR 0x5C \<and> d = CHR ''#'' then CHR ''-'' # replaceEscapedHash cs
      else c # replaceEscapedHash (d # cs))"
| "replaceEscapedHash cs = cs"


section \<open>Link Extractor\<close>

text \<open>What can be thrown while a page is processed.\<close>

datatype js_error =
    NavigationError       \<comment> \<open>\<open>page.goto\<close> rejects\<close>
  | URIError              \<comment> \<open>\<open>decodeURIComponent\<close> on a malformed escape\<close>
  | TypeError_exec_null   \<comment> \<open>destructuring the \<open>null\<close> of \<open>singleMatch.exec\<close>\<close>
  | TypeError_null_link   \<comment> \<open>\<open>link.replace\<close> on a \<open>null\<close> link\<close>
  | FormatError           \<comment> \<open>\<open>prettier.format\<close> throws\<close>
  | WriteError            \<comment> \<open>\<open>fs.writeFileSync\<close> throws\<close>

record parsed_link =
  l_text :: string
  l_wholeLink :: string
  l_link :: string

fun parseLinks_loop :: "string list \<Rightarrow> js_error + parsed_link list" where
  "parseLinks_loop [] = Inr []"
| "parseLinks_loop (m # ms) =
     (case singleMatch_exec m of
        None \<Rightarrow> Inl TypeError_exec_null
      | Some (t, l) \<Rightarrow>
          (case parseLinks_loop ms of
             Inl e \<Rightarrow> Inl e
           | Inr results \<Rightarrow>
               Inr (\<lparr>l_text = t, l_wholeLink = l, l_link = normalizeLink l\<rparr> # results)))"

definition parseLinks :: "string \<Rightarrow> js_error + parsed_link list" where
  "parseLinks txt = parseLinks_loop (match_regexMdLinks txt)"


section \<open>Page Processor: the body of a page\<close>

text \<open>The repairs of the markdown, applied after the links were extracted.\<close>

definition repairMarkdown :: "string \<Rightarrow> string" where
  "repairMarkdown markdown = replaceEscapedHash (repairEmphasis markdown)"

text \<open>The spans that the rewriting loop looks for and puts in their place.\<close>

definition oldSpan :: "parsed_link \<Rightarrow> string" where
  "oldSpan l = ''['' @ l_text l @ '']('' @ l_wholeLink l @ '')''"

definition newSpan :: "parsed_link \<Rightarrow> string" where
  "newSpan l = ''['' @ l_text l @ '']('' @ ID_PREFIX @ convertLinkToId (l_link l) @ '')''"

fun rewriteLinks :: "string \<Rightarrow> parsed_link list \<Rightarrow> string" where
  "rewriteLinks normalizedMarkdown [] = normalizedMarkdown"
| "rewriteLinks normalizedMarkdown (l # ls) =
     rewriteLinks (replace normalizedMarkdown (oldSpan l) (newSpan l)) ls"

text \<open>From the converted markdown of a page to the body that is written, together with the
  extracted links.\<close>

definition processBody :: "string \<Rightarrow> js_error + (string \<times> parsed_link list)" where
  "processBody markdown =
     (case parseLinks markdown of
        Inl e \<Rightarrow> Inl e
      | Inr links \<Rightarrow> Inr (rewriteLinks (repairMarkdown markdown) links, links))"

section \<open>Page Processor and Crawl Scheduler\<close>

text \<open>
  What the browser reports for a page (\<open>page.evaluate\<close>): the path of its location, its
  title, its content and its breadcrumb trail. The content is kept as the markdown that
  \<open>parseMarkdown(sanitizeHtml(...)).trim()\<close> makes of it (both converters are collaborators);
  a breadcrumb anchor without \<open>href\<close> attribute has the target \<open>None\<close>, the \<open>null\<close> of the
  source.
\<close>

record page =
  p_id :: string
  p_title :: string
  p_markdown :: string
  p_breadcrumb :: "(string \<times> string option) list"

text \<open>
  The collaborators of a run: navigation to \<open>PREFIX + link\<close> (\<open>None\<close> when \<open>page.goto\<close>
  rejects), \<open>decodeURIComponent\<close> and \<open>prettier.format\<close> (\<open>None\<close> when they throw) and
  \<open>fs.writeFileSync\<close> (\<open>False\<close> when it throws). Launching and closing the browser is taken
  to succeed.
\<close>

record world =
  w_goto :: "string \<Rightarrow> page option"
  w_decodeURIComponent :: "string \<Rightarrow> string option"
  w_format :: "string \<Rightarrow> string option"
  w_writeFileSync :: "string \<Rightarrow> string \<Rightarrow> bool"

text \<open>The history of a run is kept beside the state of the program: navigating to a link,
  writing a file, adding a link to \<open>alreadyParsedIds\<close>.\<close>

datatype event = Goto string | Write string | Add string

record crawl_state =
  alreadyParsedIds :: "string set"
  files :: "(string \<times> string) list"
  history :: "event list"

definition OUTPUT_DIRECTORY :: string where
  "OUTPUT_DIRECTORY = ''result''"

text \<open>\<open>array.join(sep)\<close>\<close>

fun join :: "string \<Rightarrow> string list \<Rightarrow> string" where
  "join sep [] = []"
| "join sep [x] = x"
| "join sep (x # y # ys) = x @ sep @ join sep (y # ys)"

text \<open>The breadcrumb trail as a chain of local links; \<open>linkToId\<close> on a \<open>null\<close> target ends in
  \<open>normalizeLink\<close> calling \<open>replace\<close> on \<open>null\<close>, a \<open>TypeError\<close>.\<close>

fun breadcrumbLinks :: "(string \<times> string option) list \<Rightarrow> js_error + string list" where
  "breadcrumbLinks [] = Inr []"
| "breadcrumbLinks ((name, href) # rest) =
     (case href of
        None \<Rightarrow> Inl TypeError_null_link
      | Some l \<Rightarrow>
          (case breadcrumbLinks rest of
             Inl e \<Rightarrow> Inl e
           | Inr crumbs \<Rightarrow> Inr ((''['' @ name @ '']('' @ linkToId l @ '')'') # crumbs)))"

definition frontMatter :: "string \<Rightarrow> string \<Rightarrow> string list \<Rightarrow> string" where
  "frontMatter fsId title tags =
     ''---'' @ [CHR 0x0A] @ ''id: '' @ fsId @ [CHR 0x0A] @ ''title: '' @ title @ '' ''
       @ [CHR 0x0A] @ ''tags: ['' @ join '', '' tags @ '']'' @ [CHR 0x0A]
       @ ''is_entry_point: false'' @ [CHR 0x0A] @ ''---'' @ [CHR 0x0A, CHR 0x0A]"

text \<open>A document record as \<open>parseSite\<close> returns it: the ID of the file and the title.\<close>

type_synonym entry_point = "string \<times> string"

type_synonym 'a outcome = "(js_error \<times> crawl_state) + ('a \<times> crawl_state)"

text \<open>
  \<open>parseSite\<close>, in the order in which the source evaluates: navigation, the ID and the title,
  extraction and rewriting of the links, the breadcrumb links, formatting, the write, and
  last the insertion of the link into \<open>alreadyParsedIds\<close>. Whatever throws ends the function
  there. The file name has no slash (the ID is a last path segment behind the prefix), so
  \<open>path.join\<close> puts the directory and a slash before it.
\<close>

definition parseSite ::
  "world \<Rightarrow> string \<Rightarrow> crawl_state \<Rightarrow> (entry_point \<times> parsed_link list) outcome" where
  "parseSite w lnk st =
     (let st1 = st\<lparr>history := history st @ [Goto lnk]\<rparr> in
      case w_goto w lnk of
        None \<Rightarrow> Inl (NavigationError, st1)
      | Some content \<Rightarrow>
      (case w_decodeURIComponent w (p_id content) of
        None \<Rightarrow> Inl (URIError, st1)
      | Some decoded \<Rightarrow>
      (let ident = convertLinkToId decoded;
           title = sanitizeTitle (p_title content) in
       case processBody (p_markdown content) of
        Inl e \<Rightarrow> Inl (e, st1)
      | Inr (normalizedMarkdown, links) \<Rightarrow>
      (let fsId = ID_PREFIX @ ident;
           file = OUTPUT_DIRECTORY @ ''/'' @ fsId @ ''.md'';
           header = frontMatter fsId title (map fst (p_breadcrumb content)) in
       case breadcrumbLinks (p_breadcrumb content) of
        Inl e \<Rightarrow> Inl (e, st1)
      | Inr crumbs \<Rightarrow>
      (case w_format w (join '' > '' crumbs @ [CHR 0x0A, CHR 0x0A] @ normalizedMarkdown) of
        None \<Rightarrow> Inl (FormatError, st1)
      | Some body \<Rightarrow>
          if w_writeFileSync w file (header @ body)
          then Inr (((fsId, title), links),
                 st1\<lparr>files := files st1 @ [(file, header @ body)],
                     alreadyParsedIds := insert lnk (alreadyParsedIds st1),
                     history := history st1 @ [Write file, Add lnk]\<rparr>)
          else Inl (WriteError, st1))))))"

definition entryPointFile :: "entry_point list \<Rightarrow> string" where
  "entryPointFile entryPoints =
     ''---'' @ [CHR 0x0A] @ ''id: '' @ ID_PREFIX @ ''start'' @ [CHR 0x0A]
       @ ''title: DSA Wiki'' @ [CHR 0x0A] @ ''tags: []'' @ [CHR 0x0A]
       @ ''is_entry_point: true'' @ [CHR 0x0A] @ ''---'' @ [CHR 0x0A]
       @ ''# DSA Wiki'' @ [CHR 0x0A, CHR 0x0A]
       @ join [CHR 0x0A] (map (\<lambda>(ident, title). ''- ['' @ title @ '']('' @ ident @ '')'') entryPoints)
       @ [CHR 0x0A, CHR 0x0A]"

definition writeEntryPointFile :: "world \<Rightarrow> entry_point list \<Rightarrow> crawl_state \<Rightarrow> unit outcome" where
  "writeEntryPointFile w entryPoints st =
     (let file = OUTPUT_DIRECTORY @ ''/'' @ ID_PREFIX @ ''start'' @ ''.md'';
          content = entryPointFile entryPoints in
      if w_writeFileSync w file content
      then Inr ((), st\<lparr>files := files st @ [(file, content)],
                        history := history st @ [Write file]\<rparr>)
      else Inl (WriteError, st))"

text \<open>The first loop of \<open>main\<close>: every entry point is processed, whatever has been visited.\<close>

fun seed ::
  "world \<Rightarrow> string list \<Rightarrow> parsed_link list \<Rightarrow> entry_point list \<Rightarrow> crawl_state
     \<Rightarrow> (parsed_link list \<times> entry_point list) outcome" where
  "seed w [] links entryPoints st = Inr ((links, entryPoints), st)"
| "seed w (entryPointLink # rest) links entryPoints st =
     (case parseSite w entryPointLink st of
        Inl err \<Rightarrow> Inl err
      | Inr ((entryPoint, siteLinks), st') \<Rightarrow>
          seed w rest (links @ siteLinks) (entryPoints @ [entryPoint]) st')"

text \<open>
  The second loop of \<open>main\<close>. Here \<open>i\<close> is the index that the iteration reads, the value of
  the source's counter after its increment. The loop ends when \<open>links[i]\<close> is \<open>undefined\<close>.
  It need not end: the result is \<open>None\<close> then.
\<close>

partial_function (option) drain ::
  "world \<Rightarrow> parsed_link list \<Rightarrow> nat \<Rightarrow> crawl_state \<Rightarrow> ((js_error \<times> crawl_state) + crawl_state) option"
where
  "drain w links i st =
     (if length links \<le> i then Some (Inr st)
      else if l_link (links ! i) \<in> alreadyParsedIds st then drain w links (Suc i) st
      else (case parseSite w (l_link (links ! i)) st of
              Inl err \<Rightarrow> Some (Inl err)
            | Inr ((entryPoint, newLinks), st') \<Rightarrow> drain w (links @ newLinks) (Suc i) st'))"

declare drain.simps [code]

definition initial_state :: crawl_state where
  "initial_state = \<lparr>alreadyParsedIds = {}, files = [], history = []\<rparr>"

text \<open>\<open>main\<close>, with the list of entry points as a parameter; the program runs
  \<open>crawl w ENTRY_POINTS\<close>. An error ends the run: \<open>main().catch\<close> reports it and sets the
  exit code.\<close>

definition crawl :: "world \<Rightarrow> string list \<Rightarrow> ((js_error \<times> crawl_state) + crawl_state) option" where
  "crawl w entryPointLinks =
     (case seed w entryPointLinks [] [] initial_state of
        Inl err \<Rightarrow> Some (Inl err)
      | Inr ((links, entryPoints), st) \<Rightarrow>
          (case writeEntryPointFile w entryPoints st of
             Inl err \<Rightarrow> Some (Inl err)
           | Inr (u, st') \<Rightarrow> drain w links 0 st'))"

definition main :: "world \<Rightarrow> ((js_error \<times> crawl_state) + crawl_state) option" where
  "main w = crawl w ENTRY_POINTS"

text \<open>\<open>s.includes(p)\<close>\<close>

definition str_includes :: "string \<Rightarrow> string \<Rightarrow> bool" where
  "str_includes s p \<longleftrightarrow> indexOf s p \<noteq> None"

text \<open>The state in which a run ended, normally or with an error, and its history.\<close>

fun final_state :: "(js_error \<times> crawl_state) + crawl_state \<Rightarrow> crawl_state" where
  "final_state (Inl (err, st)) = st"
| "final_state (Inr st) = st"

definition run_history :: "((js_error \<times> crawl_state) + crawl_state) option \<Rightarrow> event list option" where
  "run_history r = map_option (\<lambda>x. history (final_state x)) r"


text \<open>The link targets that a page declares: those of the links that \<open>parseLinks\<close> finds in
  its markdown.\<close>

definition page_links :: "page \<Rightarrow> string set" where
  "page_links content =
     (case parseLinks (p_markdown content) of
        Inl e \<Rightarrow> {}
      | Inr links \<Rightarrow> l_link ` set links)"

definition page_targets :: "world \<Rightarrow> string \<Rightarrow> string set" where
  "page_targets w t =
     (case w_goto w t of
        None \<Rightarrow> {}
      | Some content \<Rightarrow> page_links content)"

text \<open>The targets that can be reached from the entry points by following such links.\<close>

inductive_set reachable :: "world \<Rightarrow> string list \<Rightarrow> string set"
  for w :: world and entryPointLinks :: "string list" where
  entry: "t \<in> set entryPointLinks \<Longrightarrow> t \<in> reachable w entryPointLinks"
| step: "t \<in> reachable w entryPointLinks \<Longrightarrow> t' \<in> page_targets w t
           \<Longrightarrow> t' \<in> reachable w entryPointLinks"


text \<open>The pages behind the reachable targets.\<close>

definition reachable_pages :: "world \<Rightarrow> string list \<Rightarrow> page set" where
  "reachable_pages w entryPointLinks =
     {content. \<exists>t\<in>reachable w entryPointLinks. w_goto w t = Some content}"


section \<open>Properties of the history of a run\<close>

text \<open>No link is navigated to after it was added to the visited set.\<close>

definition no_revisit :: "event list \<Rightarrow> bool" where
  "no_revisit h \<longleftrightarrow> (\<forall>pre post t. h = pre @ Goto t # post \<longrightarrow> Add t \<notin> set pre)"

text \<open>The visited set is what the history says, and nothing was visited again.\<close>

definition consistent :: "crawl_state \<Rightarrow> bool" where
  "consistent st \<longleftrightarrow>
     alreadyParsedIds st = {t. Add t \<in> set (history st)} \<and> no_revisit (history st)"

text \<open>A link is added to the visited set just after the navigation to it and the write of
  its file.\<close>

definition added_after_write :: "event list \<Rightarrow> bool" where
  "added_after_write h \<longleftrightarrow>
     (\<forall>pre post t. h = pre @ Add t # post \<longrightarrow> (\<exists>pre' f. pre = pre' @ [Goto t, Write f]))"


section \<open>Example sites\<close>

text \<open>Two pages that link to each other, one by a relative link and one by an absolute
  link.\<close>

definition pageA :: page where
  "pageA = \<lparr>p_id = ''/a.html'', p_title = ''A - DSA Regel Wiki'',
             p_markdown = ''[B](b.html)'', p_breadcrumb = []\<rparr>"

definition pageB :: page where
  "pageB = \<lparr>p_id = ''/b.html'', p_title = ''B - DSA Regel Wiki'',
             p_markdown = ''[A](https://ulisses-regelwiki.de/a.html)'',
             p_breadcrumb = [(''A'', Some ''a.html'')]\<rparr>"

definition siteAB :: world where
  "siteAB =
     \<lparr>w_goto = (\<lambda>l. if l = ''a.html'' then Some pageA
                     else if l = ''b.html'' then Some pageB else None),
      w_decodeURIComponent = Some,
      w_format = Some,
      w_writeFileSync = (\<lambda>file content. True)\<rparr>"



text \<open>A page whose second breadcrumb anchor has no \<open>href\<close> attribute.\<close>

definition pageC :: page where
  "pageC = \<lparr>p_id = ''/c.html'', p_title = ''C'', p_markdown = ''text'',
             p_breadcrumb = [(''A'', Some ''a.html''), (''here'', None)]\<rparr>"

definition siteC :: world where
  "siteC = siteAB\<lparr>w_goto := (\<lambda>l. if l = ''c.html'' then Some pageC else w_goto siteAB l)\<rparr>"


section \<open>Properties of the string primitives\<close>


lemma split_no_sep: "sep \<notin> set s \<Longrightarrow> split sep s = [s]"
  by (induction s) auto

lemma split_append_sep: "sep \<notin> set a \<Longrightarrow> split sep (a @ sep # b) = a # split sep b"
  by (induction a) auto

text \<open>\<open>indexOf\<close> finds an occurrence exactly when there is one, and then the leftmost.\<close>

lemma indexOf_None_sublist: "indexOf s p = None \<longleftrightarrow> \<not> sublist p s"
proof (induction s)
  case Nil
  then show ?case by simp
next
  case (Cons c cs)
  then show ?case by (auto simp: sublist_Cons_right)
qed

lemma str_includes_sublist: "str_includes s p \<longleftrightarrow> sublist p s"
  by (simp add: str_includes_def indexOf_None_sublist)

lemma indexOf_first:
  "p \<noteq> [] \<Longrightarrow> \<not> sublist p (pre @ butlast p) \<Longrightarrow> indexOf (pre @ p @ post) p = Some (length pre)"
proof (induction pre)
  case Nil
  then obtain c cs where eq: "p @ post = c # cs" by (cases p) auto
  have "prefix p (p @ post)" by simp
  then have "prefix p (c # cs)" unfolding eq .
  then have "indexOf (c # cs) p = Some 0" by simp
  then show ?case using eq by simp
next
  case (Cons c pre)
  have "\<not> prefix p (c # pre @ p @ post)"
  proof
    assume "prefix p (c # pre @ p @ post)"
    then have "prefix p ((c # pre) @ p) \<or> prefix ((c # pre) @ p) p"
      by (metis append.assoc append_Cons prefix_append prefix_same_cases prefixI)
    then have "prefix p ((c # pre) @ p)"
      by (auto dest: prefix_length_le)
    then obtain zs where zs: "(c # pre) @ p = p @ zs" by (auto simp: prefix_def)
    then have "length zs = Suc (length pre)"
      by (metis add_left_cancel length_Cons length_append add.commute)
    then have "zs \<noteq> []" by auto
    from zs have "butlast ((c # pre) @ p) = butlast (p @ zs)" by simp
    with \<open>zs \<noteq> []\<close> Cons.prems(1) have "(c # pre) @ butlast p = p @ butlast zs"
      by (simp add: butlast_append)
    then have "sublist p ((c # pre) @ butlast p)" by (metis sublist_appendI append_Nil)
    with Cons.prems show False by simp
  qed
  moreover have "\<not> sublist p (pre @ butlast p)"
    using Cons.prems(2) by (auto simp: sublist_Cons_right)
  ultimately show ?case using Cons by simp
qed

lemma replace_absent: "\<not> str_includes s p \<Longrightarrow> replace s p r = s"
  by (simp add: replace_def str_includes_def)

lemma replace_first:
  assumes "p \<noteq> []" "\<not> sublist p (pre @ butlast p)"
  shows "replace (pre @ p @ post) p r = pre @ getSubstitution p pre post r @ post"
  using indexOf_first[OF assms, of post] by (simp add: replace_def)



section \<open>Identifier Normalizer: properties\<close>

lemma host_in_https: "sublist ''ulisses-regelwiki.de/'' ''https://ulisses-regelwiki.de/''"
  unfolding sublist_def by (rule exI[of _ "''https://''"], rule exI[of _ "[]"]) simp

lemma host_in_http: "sublist ''ulisses-regelwiki.de/'' ''http://ulisses-regelwiki.de/''"
  unfolding sublist_def by (rule exI[of _ "''http://''"], rule exI[of _ "[]"]) simp

lemma normalizeLink_without_host:
  assumes "\<not> str_includes x ''ulisses-regelwiki.de/''"
  shows "normalizeLink x = x"
proof -
  have h: "\<not> sublist ''ulisses-regelwiki.de/'' x"
    using assms by (simp add: str_includes_sublist)
  have "\<not> sublist ''https://ulisses-regelwiki.de/'' x"
    using h host_in_https sublist_order.order_trans by blast
  then have 1: "replace x ''https://ulisses-regelwiki.de/'' [] = x"
    by (simp add: replace_absent str_includes_sublist)
  have "\<not> sublist ''http://ulisses-regelwiki.de/'' x"
    using h host_in_http sublist_order.order_trans by blast
  then have 2: "replace x ''http://ulisses-regelwiki.de/'' [] = x"
    by (simp add: replace_absent str_includes_sublist)
  have 3: "replace x ''ulisses-regelwiki.de/'' [] = x"
    using assms by (rule replace_absent)
  show ?thesis unfolding normalizeLink_def 1 2 3 ..
qed

lemma slug_path_without_host:
  assumes "CHR ''/'' \<notin> set s"
  shows "\<not> str_includes (''index.php/'' @ s @ ''.html'') ''ulisses-regelwiki.de/''"
proof
  assume "str_includes (''index.php/'' @ s @ ''.html'') ''ulisses-regelwiki.de/''"
  then obtain ps ss where
    "''index.php/'' @ s @ ''.html'' = ps @ ''ulisses-regelwiki.de/'' @ ss"
    by (auto simp: str_includes_sublist sublist_def)
  then have "''index.php'' @ CHR ''/'' # (s @ ''.html'')
               = (ps @ ''ulisses-regelwiki.de'') @ CHR ''/'' # ss"
    by simp
  moreover have "CHR ''/'' \<notin> set ''index.php''" by simp
  moreover have "CHR ''/'' \<notin> set (s @ ''.html'')" using assms by simp
  ultimately have "''index.php'' = ps @ ''ulisses-regelwiki.de''"
    using append_Cons_eq_iff by metis
  then have "length ''index.php'' = length (ps @ ''ulisses-regelwiki.de'')" by (rule arg_cong)
  then show False by simp
qed

lemma strip_html_suffix:
  assumes "CHR ''.'' \<notin> set s"
  shows "replace (s @ ''.html'') ''.html'' [] = s"
proof -
  have "\<not> sublist ''.html'' (s @ butlast ''.html'')"
  proof
    assume "sublist ''.html'' (s @ butlast ''.html'')"
    then obtain ps ss where "s @ ''.htm'' = ps @ ''.html'' @ ss"
      by (auto simp: sublist_def)
    then have "s @ CHR ''.'' # ''htm'' = ps @ CHR ''.'' # (''html'' @ ss)" by simp
    moreover have "CHR ''.'' \<notin> set ''htm''" by simp
    ultimately have "''htm'' = ''html'' @ ss"
      using assms append_Cons_eq_iff by metis
    then have "length ''htm'' = length (''html'' @ ss)" by (rule arg_cong)
    then show False by simp
  qed
  then have "replace (s @ ''.html'' @ []) ''.html'' [] = s @ getSubstitution ''.html'' s [] [] @ []"
    by (intro replace_first) simp_all
  then show ?thesis by simp
qed

lemma convertLinkToId_slug:
  assumes "CHR ''/'' \<notin> set s" "CHR ''.'' \<notin> set s"
  shows "convertLinkToId (''index.php/'' @ s @ ''.html'') = s"
proof -
  have n: "normalizeLink (''index.php/'' @ s @ ''.html'') = ''index.php/'' @ s @ ''.html''"
    using assms(1) by (intro normalizeLink_without_host slug_path_without_host)
  have "split CHR ''/'' (''index.php'' @ CHR ''/'' # (s @ ''.html''))
          = ''index.php'' # split CHR ''/'' (s @ ''.html'')"
    by (rule split_append_sep) simp
  moreover have "split CHR ''/'' (s @ ''.html'') = [s @ ''.html'']"
    using assms(1) by (intro split_no_sep) simp
  ultimately have "split CHR ''/'' (''index.php/'' @ s @ ''.html'') = [''index.php'', s @ ''.html'']"
    by simp
  then show ?thesis
    using assms(2) by (simp add: convertLinkToId_def n strip_html_suffix del: append.simps)
qed

text \<open>
  Claim C2, as amended. \<open>convertLinkToId\<close> is a function of the link alone, so the same link
  always has the same ID. The thirteen entry points have pairwise distinct IDs, and among
  paths of their shape, \<open>index.php/<slug>.html\<close> with a slug free of \<open>/\<close> and \<open>.\<close>, the ID is
  the slug, so that two such paths with the same ID are the same path.
\<close>

theorem convertLinkToId_entry_points_distinct:
  "distinct (map convertLinkToId ENTRY_POINTS) \<and>
   (\<forall>s s'. CHR ''/'' \<notin> set s \<and> CHR ''.'' \<notin> set s \<and> CHR ''/'' \<notin> set s' \<and> CHR ''.'' \<notin> set s' \<and>
      convertLinkToId (''index.php/'' @ s @ ''.html'') = convertLinkToId (''index.php/'' @ s' @ ''.html'')
        \<longrightarrow> s = s')"
proof
  show "distinct (map convertLinkToId ENTRY_POINTS)"
    by (simp add: ENTRY_POINTS_def convertLinkToId_def normalizeLink_def replace_def)
next
  show "\<forall>s s'. CHR ''/'' \<notin> set s \<and> CHR ''.'' \<notin> set s \<and> CHR ''/'' \<notin> set s' \<and> CHR ''.'' \<notin> set s' \<and>
      convertLinkToId (''index.php/'' @ s @ ''.html'') = convertLinkToId (''index.php/'' @ s' @ ''.html'')
        \<longrightarrow> s = s'"
  proof (intro allI impI)
    fix s s'
    assume a: "CHR ''/'' \<notin> set s \<and> CHR ''.'' \<notin> set s \<and> CHR ''/'' \<notin> set s' \<and> CHR ''.'' \<notin> set s' \<and>
      convertLinkToId (''index.php/'' @ s @ ''.html'') = convertLinkToId (''index.php/'' @ s' @ ''.html'')"
    have "convertLinkToId (''index.php/'' @ s @ ''.html'') = s"
      using a by (intro convertLinkToId_slug) simp_all
    moreover have "convertLinkToId (''index.php/'' @ s' @ ''.html'') = s'"
      using a by (intro convertLinkToId_slug) simp_all
    ultimately show "s = s'" using a by simp
  qed
qed

text \<open>Witness for C2: two slugs that satisfy the side conditions and differ have different
  IDs.\<close>

theorem convertLinkToId_entry_points_distinct_witness:
  "CHR ''/'' \<notin> set ''magie'' \<and> CHR ''.'' \<notin> set ''magie'' \<and>
   CHR ''/'' \<notin> set ''magic'' \<and> CHR ''.'' \<notin> set ''magic'' \<and>
   convertLinkToId ''index.php/magie.html'' \<noteq> convertLinkToId ''index.php/magic.html''"
proof -
  have side: "CHR ''/'' \<notin> set ''magie'' \<and> CHR ''.'' \<notin> set ''magie'' \<and>
      CHR ''/'' \<notin> set ''magic'' \<and> CHR ''.'' \<notin> set ''magic''"
    by simp
  have ne: "''magie'' \<noteq> ''magic''" by simp
  have "CHR ''/'' \<notin> set ''magie'' \<and> CHR ''.'' \<notin> set ''magie'' \<and>
      CHR ''/'' \<notin> set ''magic'' \<and> CHR ''.'' \<notin> set ''magic'' \<and>
      convertLinkToId (''index.php/'' @ ''magie'' @ ''.html'')
        = convertLinkToId (''index.php/'' @ ''magic'' @ ''.html'')
      \<longrightarrow> ''magie'' = ''magic''"
    using convertLinkToId_entry_points_distinct [THEN conjunct2, THEN spec, THEN spec,
        of "''magie''" "''magic''"] .
  with side ne
  have "convertLinkToId (''index.php/'' @ ''magie'' @ ''.html'')
          \<noteq> convertLinkToId (''index.php/'' @ ''magic'' @ ''.html'')"
    by blast
  then have "convertLinkToId ''index.php/magie.html'' \<noteq> convertLinkToId ''index.php/magic.html''"
    by simp
  with side show ?thesis by blast
qed

text \<open>Counterexample to C2 as stated: the ID is the last path segment only, so two different
  pages in different directories share one ID.\<close>

theorem convertLinkToId_not_injective:
  "''index.php/a/x.html'' \<noteq> ''index.php/b/x.html'' \<and>
   convertLinkToId ''index.php/a/x.html'' = convertLinkToId ''index.php/b/x.html''"
  by (simp add: normalizeLink_def convertLinkToId_def replace_def)

text \<open>
  Claim C5, as amended. A string that does not contain \<open>ulisses-regelwiki.de/\<close> (such as a
  site-relative path) is returned unchanged, and normalizing twice is the same as normalizing
  once whenever the first result no longer contains that host prefix.
\<close>

theorem normalizeLink_idempotent_without_host:
  "(\<not> str_includes x ''ulisses-regelwiki.de/'' \<longrightarrow> normalizeLink x = x) \<and>
   (\<not> str_includes (normalizeLink x) ''ulisses-regelwiki.de/'' \<longrightarrow>
      normalizeLink (normalizeLink x) = normalizeLink x)"
  using normalizeLink_without_host by blast

text \<open>Witness for C5: a relative path and an absolute link of the wiki.\<close>

theorem normalizeLink_idempotent_without_host_witness:
  "\<not> str_includes ''index.php/regeln.html'' ''ulisses-regelwiki.de/'' \<and>
   normalizeLink ''index.php/regeln.html'' = ''index.php/regeln.html'' \<and>
   \<not> str_includes (normalizeLink ''https://ulisses-regelwiki.de/index.php/regeln.html'')
        ''ulisses-regelwiki.de/'' \<and>
   normalizeLink (normalizeLink ''https://ulisses-regelwiki.de/index.php/regeln.html'') =
     normalizeLink ''https://ulisses-regelwiki.de/index.php/regeln.html''"
proof -
  have a: "\<not> str_includes ''index.php/regeln.html'' ''ulisses-regelwiki.de/''"
    by (simp add: str_includes_def)
  have b: "\<not> str_includes (normalizeLink ''https://ulisses-regelwiki.de/index.php/regeln.html'')
        ''ulisses-regelwiki.de/''"
    by (simp add: str_includes_def normalizeLink_def replace_def)
  show ?thesis
    using a b normalizeLink_idempotent_without_host [of "''index.php/regeln.html''"]
      normalizeLink_idempotent_without_host [of "''https://ulisses-regelwiki.de/index.php/regeln.html''"]
    by blast
qed

text \<open>Counterexample to C5 as stated: each \<open>replace\<close> removes one occurrence only, so a
  second normalization strips a host prefix that the first one left.\<close>

theorem normalizeLink_not_idempotent:
  "normalizeLink (normalizeLink ''ulisses-regelwiki.de/ulisses-regelwiki.de/a'')
     \<noteq> normalizeLink ''ulisses-regelwiki.de/ulisses-regelwiki.de/a''"
  by (simp add: normalizeLink_def replace_def)

text \<open>The earlier revision of \<open>normalizeLink\<close> is not idempotent either.\<close>

lemma normalizeLink_v1_not_idempotent:
  "normalizeLink_v1 (normalizeLink_v1 ''http://ulisses-regelwiki.de/http://ulisses-regelwiki.de/a'')
     \<noteq> normalizeLink_v1 ''http://ulisses-regelwiki.de/http://ulisses-regelwiki.de/a''"
  by (simp add: normalizeLink_v1_def replace_def)

text \<open>
  Claim C6, as amended. The prefixes that \<open>normalizeLink\<close> strips are those of the wiki:
  \<open>https://ulisses-regelwiki.de/a/b/page.html\<close> becomes \<open>a/b/page.html\<close> with the ID \<open>page\<close>,
  while \<open>https://example.org/a/b/page.html\<close> is returned unchanged and has the ID \<open>page\<close>.
\<close>

theorem example_ids:
  "normalizeLink ''https://ulisses-regelwiki.de/a/b/page.html'' = ''a/b/page.html'' \<and>
   convertLinkToId ''https://ulisses-regelwiki.de/a/b/page.html'' = ''page'' \<and>
   normalizeLink ''https://example.org/a/b/page.html'' = ''https://example.org/a/b/page.html'' \<and>
   convertLinkToId ''https://example.org/a/b/page.html'' = ''page''"
  by (simp add: normalizeLink_def convertLinkToId_def replace_def)

text \<open>Counterexample to C6 as stated: the host \<open>example.org\<close> is not stripped.\<close>

theorem example_org_not_stripped:
  "normalizeLink ''https://example.org/a/b/page.html'' \<noteq> ''a/b/page.html''"
  by (simp add: normalizeLink_def replace_def)


section \<open>Crawl Scheduler: properties\<close>

lemma processBody_links:
  "processBody md = Inr (body, links) \<Longrightarrow> parseLinks md = Inr links"
  by (auto simp: processBody_def split: sum.splits)

lemma parseLinks_loop_error: "parseLinks_loop ms = Inl e \<Longrightarrow> e = TypeError_exec_null"
  by (induction ms arbitrary: e) (auto split: option.splits sum.splits)

lemma processBody_error: "processBody md = Inl e \<Longrightarrow> e = TypeError_exec_null"
  by (auto simp: processBody_def parseLinks_def split: sum.splits dest: parseLinks_loop_error)

lemma breadcrumbLinks_error: "breadcrumbLinks bs = Inl e \<Longrightarrow> e = TypeError_null_link"
  by (induction bs arbitrary: e rule: breadcrumbLinks.induct) (auto split: option.splits sum.splits)

lemma breadcrumbLinks_null: "None \<in> snd ` set bs \<Longrightarrow> breadcrumbLinks bs = Inl TypeError_null_link"
  by (induction bs rule: breadcrumbLinks.induct)
     (auto split: option.splits sum.splits dest: breadcrumbLinks_error)

lemma breadcrumbLinks_ok: "None \<notin> snd ` set bs \<Longrightarrow> \<exists>crumbs. breadcrumbLinks bs = Inr crumbs"
  by (induction bs rule: breadcrumbLinks.induct) (auto split: option.splits sum.splits)

lemma parseSite_Inl:
  assumes "parseSite w l st = Inl (e, st')"
  shows "history st' = history st @ [Goto l]"
    and "alreadyParsedIds st' = alreadyParsedIds st"
  using assms unfolding parseSite_def Let_def
  by (auto split: option.splits sum.splits prod.splits if_splits)

lemma parseSite_Inr:
  assumes "parseSite w l st = Inr ((ep, newLinks), st')"
  shows "\<exists>file. history st' = history st @ [Goto l, Write file, Add l]"
    and "alreadyParsedIds st' = insert l (alreadyParsedIds st)"
    and "l_link ` set newLinks = page_targets w l"
  using assms unfolding parseSite_def Let_def page_targets_def page_links_def
  by (auto split: option.splits sum.splits prod.splits if_splits dest!: processBody_links)

lemma writeEntryPointFile_Inl:
  "writeEntryPointFile w eps st = Inl (e, st') \<Longrightarrow> st' = st \<and> e = WriteError"
  by (auto simp: writeEntryPointFile_def Let_def split: if_splits)

lemma writeEntryPointFile_Inr:
  assumes "writeEntryPointFile w eps st = Inr (u, st')"
  shows "\<exists>file. history st' = history st @ [Write file]"
    and "alreadyParsedIds st' = alreadyParsedIds st"
  using assms by (auto simp: writeEntryPointFile_def Let_def split: if_splits)

lemma no_revisit_Nil: "no_revisit []"
  by (simp add: no_revisit_def)

lemma no_revisit_snoc:
  "no_revisit (h @ [e]) \<longleftrightarrow> no_revisit h \<and> (\<forall>t. e = Goto t \<longrightarrow> Add t \<notin> set h)"
proof
  assume a: "no_revisit (h @ [e])"
  have "no_revisit h"
    unfolding no_revisit_def
  proof (intro allI impI)
    fix pre post t assume "h = pre @ Goto t # post"
    then have "h @ [e] = pre @ Goto t # (post @ [e])" by simp
    with a show "Add t \<notin> set pre" unfolding no_revisit_def by blast
  qed
  moreover have "\<forall>t. e = Goto t \<longrightarrow> Add t \<notin> set h"
  proof (intro allI impI)
    fix t assume "e = Goto t"
    then have "h @ [e] = h @ Goto t # []" by simp
    with a show "Add t \<notin> set h" unfolding no_revisit_def by blast
  qed
  ultimately show "no_revisit h \<and> (\<forall>t. e = Goto t \<longrightarrow> Add t \<notin> set h)" by simp
next
  assume a: "no_revisit h \<and> (\<forall>t. e = Goto t \<longrightarrow> Add t \<notin> set h)"
  show "no_revisit (h @ [e])"
    unfolding no_revisit_def
  proof (intro allI impI)
    fix pre post t assume eq: "h @ [e] = pre @ Goto t # post"
    show "Add t \<notin> set pre"
    proof (cases post rule: rev_cases)
      case Nil
      with eq have "h = pre" "e = Goto t" by auto
      with a show ?thesis by simp
    next
      case (snoc post' x)
      with eq have "h = pre @ Goto t # post'" by simp
      with a show ?thesis unfolding no_revisit_def by blast
    qed
  qed
qed

lemma consistent_initial: "consistent initial_state"
  by (simp add: consistent_def initial_state_def no_revisit_Nil)

lemma consistent_parseSite_Inl:
  assumes "consistent st" "l \<notin> alreadyParsedIds st" "parseSite w l st = Inl (e, st')"
  shows "consistent st'"
  using assms parseSite_Inl[OF assms(3)]
  by (auto simp: consistent_def no_revisit_snoc)

lemma consistent_parseSite_Inr:
  assumes "consistent st" "l \<notin> alreadyParsedIds st" "parseSite w l st = Inr ((ep, nl), st')"
  shows "consistent st'"
proof -
  obtain f where h: "history st' = ((history st @ [Goto l]) @ [Write f]) @ [Add l]"
    using parseSite_Inr(1)[OF assms(3)] by auto
  have v: "alreadyParsedIds st' = insert l (alreadyParsedIds st)"
    using parseSite_Inr(2)[OF assms(3)] .
  have "no_revisit (history st')"
    unfolding h no_revisit_snoc using assms(1,2) by (auto simp: consistent_def)
  moreover have "alreadyParsedIds st' = {t. Add t \<in> set (history st')}"
    unfolding h v using assms(1) by (auto simp: consistent_def)
  ultimately show ?thesis by (simp add: consistent_def)
qed

lemma consistent_writeEntryPointFile:
  assumes "consistent st" "writeEntryPointFile w eps st = Inr (u, st')"
  shows "consistent st'"
  using assms writeEntryPointFile_Inr[OF assms(2)]
  by (auto simp: consistent_def no_revisit_snoc)

lemma consistent_seed:
  assumes "consistent st" "distinct eps" "set eps \<inter> alreadyParsedIds st = {}"
  shows "case seed w eps links entryPoints st of
           Inl (e, st') \<Rightarrow> consistent st'
         | Inr (res, st') \<Rightarrow> consistent st'"
  using assms
proof (induction eps arbitrary: links entryPoints st)
  case Nil
  then show ?case by simp
next
  case (Cons l eps)
  have l: "l \<notin> alreadyParsedIds st" using Cons.prems by auto
  show ?case
  proof (cases "parseSite w l st")
    case (Inl err)
    then show ?thesis
      using consistent_parseSite_Inl[OF Cons.prems(1) l] by (cases err) auto
  next
    case (Inr res)
    then obtain ep nl st' where r: "parseSite w l st = Inr ((ep, nl), st')"
      by (cases res) auto
    have c: "consistent st'" using consistent_parseSite_Inr[OF Cons.prems(1) l r] .
    have "alreadyParsedIds st' = insert l (alreadyParsedIds st)"
      using parseSite_Inr(2)[OF r] .
    then have "set eps \<inter> alreadyParsedIds st' = {}" using Cons.prems by auto
    with Cons.IH[OF c] Cons.prems(2) show ?thesis by (simp add: r)
  qed
qed

lemma consistent_drain:
  assumes "drain w links i st = Some r" and "consistent st"
  shows "consistent (final_state r)"
  using assms(2)
proof (induction rule: drain.raw_induct[OF _ assms(1)])
  case (1 drain' w links i st r)
  show ?case
  proof (cases "length links \<le> i")
    case True
    with 1 show ?thesis by auto
  next
    case False
    show ?thesis
    proof (cases "l_link (links ! i) \<in> alreadyParsedIds st")
      case True
      with False 1 show ?thesis by auto
    next
      case unvisited: False
      show ?thesis
      proof (cases "parseSite w (l_link (links ! i)) st")
        case (Inl err)
        then show ?thesis
          using False unvisited 1(2) consistent_parseSite_Inl[OF 1(3) unvisited]
          by (cases err) auto
      next
        case (Inr res)
        then obtain ep nl st' where r: "parseSite w (l_link (links ! i)) st = Inr ((ep, nl), st')"
          by (cases res) auto
        have c: "consistent st'" using consistent_parseSite_Inr[OF 1(3) unvisited r] .
        from 1(2) False unvisited r have "drain' w (links @ nl) (Suc i) st' = Some r" by simp
        from 1(1)[OF this c] show ?thesis .
      qed
    qed
  qed
qed

lemma consistent_crawl:
  assumes "distinct eps" "crawl w eps = Some r"
  shows "consistent (final_state r)"
proof (cases "seed w eps [] [] initial_state")
  case (Inl err)
  then show ?thesis
    using assms consistent_seed[of initial_state eps w "[]" "[]"] consistent_initial
    by (cases err) (auto simp: crawl_def initial_state_def)
next
  case (Inr res)
  then obtain links entryPoints st where s: "seed w eps [] [] initial_state = Inr ((links, entryPoints), st)"
    by (cases res) auto
  have c: "consistent st"
    using assms(1) consistent_seed[of initial_state eps w "[]" "[]"] consistent_initial s
    by (auto simp: initial_state_def)
  show ?thesis
  proof (cases "writeEntryPointFile w entryPoints st")
    case (Inl err)
    then show ?thesis
      using assms s c writeEntryPointFile_Inl[of w entryPoints st]
      by (cases err) (auto simp: crawl_def)
  next
    case (Inr res')
    then obtain u st' where wr: "writeEntryPointFile w entryPoints st = Inr (u, st')"
      by (cases res') auto
    have "consistent st'" using consistent_writeEntryPointFile[OF c wr] .
    moreover have "drain w links 0 st' = Some r" using assms s wr by (simp add: crawl_def)
    ultimately show ?thesis using consistent_drain by blast
  qed
qed

text \<open>
  Claim C3. In a run from distinct entry points (as those of the program are), no link is
  navigated to after it was added to \<open>alreadyParsedIds\<close>: wherever \<open>Goto t\<close> stands in the
  history of the run, \<open>Add t\<close> does not stand before it.
\<close>

theorem visited_never_processed_again:
  assumes "distinct entryPointLinks"
    and "run_history (crawl w entryPointLinks) = Some (pre @ Goto t # post)"
  shows "Add t \<notin> set pre"
proof -
  from assms(2) obtain r where r: "crawl w entryPointLinks = Some r"
    and h: "history (final_state r) = pre @ Goto t # post"
    by (auto simp: run_history_def)
  have "no_revisit (history (final_state r))"
    using consistent_crawl[OF assms(1) r] by (simp add: consistent_def)
  with h show ?thesis unfolding no_revisit_def by blast
qed

text \<open>Witness for C3: page A is the entry point, page B is found on it and links back to A;
  B is processed once and A is not processed again.\<close>

theorem visited_never_processed_again_witness:
  "distinct [''a.html''] \<and>
   run_history (crawl siteAB [''a.html'']) =
     Some ([Goto ''a.html'', Write ''result/dsa-rule-a.md'', Add ''a.html'',
            Write ''result/dsa-rule-start.md'']
           @ Goto ''b.html'' # [Write ''result/dsa-rule-b.md'', Add ''b.html'']) \<and>
   Add ''b.html'' \<notin> set [Goto ''a.html'', Write ''result/dsa-rule-a.md'', Add ''a.html'',
                           Write ''result/dsa-rule-start.md'']"
proof -
  have d: "distinct [''a.html'']" by simp
  have h: "run_history (crawl siteAB [''a.html'']) =
     Some ([Goto ''a.html'', Write ''result/dsa-rule-a.md'', Add ''a.html'',
            Write ''result/dsa-rule-start.md'']
           @ Goto ''b.html'' # [Write ''result/dsa-rule-b.md'', Add ''b.html''])"
    by code_simp
  from visited_never_processed_again [OF d h] d h show ?thesis by blast
qed

text \<open>The entry points of the program are distinct, so C3 applies to \<open>main\<close>.\<close>

lemma distinct_ENTRY_POINTS: "distinct ENTRY_POINTS"
  by (simp add: ENTRY_POINTS_def)

lemma main_never_processes_twice:
  assumes "run_history (main w) = Some (pre @ Goto t # post)"
  shows "Add t \<notin> set pre"
proof -
  from assms obtain r where r: "crawl w ENTRY_POINTS = Some r"
    and h: "history (final_state r) = pre @ Goto t # post"
    by (auto simp: run_history_def main_def)
  have "no_revisit (history (final_state r))"
    using consistent_crawl[OF distinct_ENTRY_POINTS r] by (simp add: consistent_def)
  with h show ?thesis unfolding no_revisit_def by blast
qed


section \<open>When a link is marked as visited\<close>

lemma added_after_write_Nil: "added_after_write []"
  by (simp add: added_after_write_def)

lemma added_after_write_snoc:
  "added_after_write (h @ [e]) \<longleftrightarrow>
     added_after_write h \<and> (\<forall>t. e = Add t \<longrightarrow> (\<exists>pre' f. h = pre' @ [Goto t, Write f]))"
proof
  assume a: "added_after_write (h @ [e])"
  have "added_after_write h"
    unfolding added_after_write_def
  proof (intro allI impI)
    fix pre post t assume "h = pre @ Add t # post"
    then have "h @ [e] = pre @ Add t # (post @ [e])" by simp
    with a show "\<exists>pre' f. pre = pre' @ [Goto t, Write f]"
      unfolding added_after_write_def by blast
  qed
  moreover have "\<forall>t. e = Add t \<longrightarrow> (\<exists>pre' f. h = pre' @ [Goto t, Write f])"
  proof (intro allI impI)
    fix t assume "e = Add t"
    then have "h @ [e] = h @ Add t # []" by simp
    with a show "\<exists>pre' f. h = pre' @ [Goto t, Write f]"
      unfolding added_after_write_def by blast
  qed
  ultimately show "added_after_write h \<and>
      (\<forall>t. e = Add t \<longrightarrow> (\<exists>pre' f. h = pre' @ [Goto t, Write f]))" by simp
next
  assume a: "added_after_write h \<and>
      (\<forall>t. e = Add t \<longrightarrow> (\<exists>pre' f. h = pre' @ [Goto t, Write f]))"
  show "added_after_write (h @ [e])"
    unfolding added_after_write_def
  proof (intro allI impI)
    fix pre post t assume eq: "h @ [e] = pre @ Add t # post"
    show "\<exists>pre' f. pre = pre' @ [Goto t, Write f]"
    proof (cases post rule: rev_cases)
      case Nil
      with eq have "h = pre" "e = Add t" by auto
      with a show ?thesis by simp
    next
      case (snoc post' x)
      with eq have "h = pre @ Add t # post'" by simp
      with a show ?thesis unfolding added_after_write_def by blast
    qed
  qed
qed

lemma added_after_write_parseSite_Inl:
  assumes "added_after_write (history st)" "parseSite w l st = Inl (e, st')"
  shows "added_after_write (history st')"
  using assms(1) parseSite_Inl(1)[OF assms(2)]
  by (simp add: added_after_write_snoc)

lemma added_after_write_parseSite_Inr:
  assumes "added_after_write (history st)" "parseSite w l st = Inr ((ep, nl), st')"
  shows "added_after_write (history st')"
proof -
  obtain f where h: "history st' = ((history st @ [Goto l]) @ [Write f]) @ [Add l]"
    using parseSite_Inr(1)[OF assms(2)] by auto
  show ?thesis
    unfolding h added_after_write_snoc using assms(1) by auto
qed

lemma added_after_write_writeEntryPointFile:
  assumes "added_after_write (history st)" "writeEntryPointFile w eps st = Inr (u, st')"
  shows "added_after_write (history st')"
  using assms(1) writeEntryPointFile_Inr(1)[OF assms(2)]
  by (auto simp: added_after_write_snoc)

lemma added_after_write_seed:
  assumes "added_after_write (history st)"
  shows "case seed w eps links entryPoints st of
           Inl (e, st') \<Rightarrow> added_after_write (history st')
         | Inr (res, st') \<Rightarrow> added_after_write (history st')"
  using assms
proof (induction eps arbitrary: links entryPoints st)
  case Nil
  then show ?case by simp
next
  case (Cons l eps)
  show ?case
  proof (cases "parseSite w l st")
    case (Inl err)
    then show ?thesis
      using added_after_write_parseSite_Inl[OF Cons.prems] by (cases err) auto
  next
    case (Inr res)
    then obtain ep nl st' where r: "parseSite w l st = Inr ((ep, nl), st')"
      by (cases res) auto
    have "added_after_write (history st')"
      using added_after_write_parseSite_Inr[OF Cons.prems r] .
    with Cons.IH show ?thesis by (simp add: r)
  qed
qed

lemma added_after_write_drain:
  assumes "drain w links i st = Some r" and "added_after_write (history st)"
  shows "added_after_write (history (final_state r))"
  using assms(2)
proof (induction rule: drain.raw_induct[OF _ assms(1)])
  case (1 drain' w links i st r)
  show ?case
  proof (cases "length links \<le> i \<or> l_link (links ! i) \<in> alreadyParsedIds st")
    case True
    with 1 show ?thesis by (auto split: if_splits)
  next
    case False
    show ?thesis
    proof (cases "parseSite w (l_link (links ! i)) st")
      case (Inl err)
      then show ?thesis
        using False 1(2) added_after_write_parseSite_Inl[OF 1(3)]
        by (cases err) auto
    next
      case (Inr res)
      then obtain ep nl st' where r: "parseSite w (l_link (links ! i)) st = Inr ((ep, nl), st')"
        by (cases res) auto
      have c: "added_after_write (history st')"
        using added_after_write_parseSite_Inr[OF 1(3) r] .
      from 1(2) False r have "drain' w (links @ nl) (Suc i) st' = Some r" by simp
      from 1(1)[OF this c] show ?thesis .
    qed
  qed
qed

lemma added_after_write_crawl:
  assumes "crawl w eps = Some r"
  shows "added_after_write (history (final_state r))"
proof (cases "seed w eps [] [] initial_state")
  case (Inl err)
  then show ?thesis
    using assms added_after_write_seed[of initial_state w eps "[]" "[]"] added_after_write_Nil
    by (cases err) (auto simp: crawl_def initial_state_def)
next
  case (Inr res)
  then obtain links entryPoints st
    where s: "seed w eps [] [] initial_state = Inr ((links, entryPoints), st)"
    by (cases res) auto
  have c: "added_after_write (history st)"
    using added_after_write_seed[of initial_state w eps "[]" "[]"] added_after_write_Nil s
    by (auto simp: initial_state_def)
  show ?thesis
  proof (cases "writeEntryPointFile w entryPoints st")
    case (Inl err)
    then show ?thesis
      using assms s c writeEntryPointFile_Inl[of w entryPoints st]
      by (cases err) (auto simp: crawl_def)
  next
    case (Inr res')
    then obtain u st' where wr: "writeEntryPointFile w entryPoints st = Inr (u, st')"
      by (cases res') auto
    have "added_after_write (history st')"
      using added_after_write_writeEntryPointFile[OF c wr] .
    moreover have "drain w links 0 st' = Some r" using assms s wr by (simp add: crawl_def)
    ultimately show ?thesis using added_after_write_drain by blast
  qed
qed

text \<open>
  Claim C8, as amended. A link is added to \<open>alreadyParsedIds\<close> by \<open>parseSite\<close> itself, as its
  last step: wherever \<open>Add t\<close> stands in the history of a run, the navigation to \<open>t\<close> and the
  write of its file stand just before it. So a link is absent from the visited set while it
  is processed, and present from the end of its processing on, before the next link is taken
  from the list.
\<close>

theorem visited_added_after_processing:
  assumes "run_history (crawl w entryPointLinks) = Some (pre @ Add t # post)"
  shows "\<exists>pre' f. pre = pre' @ [Goto t, Write f]"
proof -
  from assms obtain r where r: "crawl w entryPointLinks = Some r"
    and h: "history (final_state r) = pre @ Add t # post"
    by (auto simp: run_history_def)
  from added_after_write_crawl[OF r] h show ?thesis
    unfolding added_after_write_def by blast
qed

text \<open>Witness for C8: the run from page A, at the insertion of page B.\<close>

theorem visited_added_after_processing_witness:
  "run_history (crawl siteAB [''a.html'']) =
     Some ([Goto ''a.html'', Write ''result/dsa-rule-a.md'', Add ''a.html'',
            Write ''result/dsa-rule-start.md'', Goto ''b.html'', Write ''result/dsa-rule-b.md'']
           @ Add ''b.html'' # []) \<and>
   (\<exists>pre' f. [Goto ''a.html'', Write ''result/dsa-rule-a.md'', Add ''a.html'',
              Write ''result/dsa-rule-start.md'', Goto ''b.html'', Write ''result/dsa-rule-b.md'']
             = pre' @ [Goto ''b.html'', Write f])"
proof -
  have h: "run_history (crawl siteAB [''a.html'']) =
     Some ([Goto ''a.html'', Write ''result/dsa-rule-a.md'', Add ''a.html'',
            Write ''result/dsa-rule-start.md'', Goto ''b.html'', Write ''result/dsa-rule-b.md'']
           @ Add ''b.html'' # [])"
    by code_simp
  from visited_added_after_processing [OF h] h show ?thesis by blast
qed

text \<open>Counterexample to C8 as stated: in the drain loop page B is fetched and written while
  it is not in the visited set; it is added afterwards.\<close>

theorem processed_before_marked:
  "run_history (crawl siteAB [''a.html'']) =
     Some [Goto ''a.html'', Write ''result/dsa-rule-a.md'', Add ''a.html'',
           Write ''result/dsa-rule-start.md'',
           Goto ''b.html'', Write ''result/dsa-rule-b.md'', Add ''b.html''] \<and>
   Add ''b.html'' \<notin> set [Goto ''a.html'', Write ''result/dsa-rule-a.md'', Add ''a.html'',
                           Write ''result/dsa-rule-start.md'',
                           Goto ''b.html'', Write ''result/dsa-rule-b.md'']"
proof
  show "run_history (crawl siteAB [''a.html'']) =
     Some [Goto ''a.html'', Write ''result/dsa-rule-a.md'', Add ''a.html'',
           Write ''result/dsa-rule-start.md'',
           Goto ''b.html'', Write ''result/dsa-rule-b.md'', Add ''b.html'']"
    by code_simp
next
  show "Add ''b.html'' \<notin> set [Goto ''a.html'', Write ''result/dsa-rule-a.md'', Add ''a.html'',
                           Write ''result/dsa-rule-start.md'',
                           Goto ''b.html'', Write ''result/dsa-rule-b.md'']"
    by simp
qed


section \<open>Errors while a page is processed\<close>




text \<open>
  Claim C10. When the breadcrumb trail of the fetched page has an anchor without \<open>href\<close>,
  \<open>parseSite\<close> throws and returns no document record; if the steps before the breadcrumbs
  succeed, what is thrown is the \<open>TypeError\<close> of \<open>normalizeLink\<close> on \<open>null\<close>, and no file is
  written. When every anchor has an \<open>href\<close>, that error does not arise.
\<close>

theorem breadcrumb_without_href_throws:
  assumes "w_goto w l = Some content"
  shows "(None \<in> snd ` set (p_breadcrumb content) \<longrightarrow>
            (\<exists>e st'. parseSite w l st = Inl (e, st')) \<and>
            (\<forall>decoded body links.
               w_decodeURIComponent w (p_id content) = Some decoded \<and>
               processBody (p_markdown content) = Inr (body, links) \<longrightarrow>
               parseSite w l st
                 = Inl (TypeError_null_link, st\<lparr>history := history st @ [Goto l]\<rparr>))) \<and>
         (None \<notin> snd ` set (p_breadcrumb content) \<longrightarrow>
            (\<forall>st'. parseSite w l st \<noteq> Inl (TypeError_null_link, st')))"
proof (intro conjI impI)
  assume n: "None \<in> snd ` set (p_breadcrumb content)"
  have b: "breadcrumbLinks (p_breadcrumb content) = Inl TypeError_null_link"
    using n by (rule breadcrumbLinks_null)
  show "\<exists>e st'. parseSite w l st = Inl (e, st')"
    unfolding parseSite_def Let_def using assms b
    by (auto split: option.splits sum.splits prod.splits)
  show "\<forall>decoded body links.
               w_decodeURIComponent w (p_id content) = Some decoded \<and>
               processBody (p_markdown content) = Inr (body, links) \<longrightarrow>
               parseSite w l st
                 = Inl (TypeError_null_link, st\<lparr>history := history st @ [Goto l]\<rparr>)"
    unfolding parseSite_def Let_def using assms b by auto
next
  assume n: "None \<notin> snd ` set (p_breadcrumb content)"
  obtain crumbs where b: "breadcrumbLinks (p_breadcrumb content) = Inr crumbs"
    using breadcrumbLinks_ok[OF n] by auto
  show "\<forall>st'. parseSite w l st \<noteq> Inl (TypeError_null_link, st')"
    unfolding parseSite_def Let_def using assms b
    by (auto split: option.splits sum.splits prod.splits dest: processBody_error)
qed

text \<open>Witness for C10: page C has an anchor without \<open>href\<close>, page B has none.\<close>

theorem breadcrumb_without_href_throws_witness:
  "w_goto siteC ''c.html'' = Some pageC \<and>
   None \<in> snd ` set (p_breadcrumb pageC) \<and>
   parseSite siteC ''c.html'' initial_state
     = Inl (TypeError_null_link, initial_state\<lparr>history := history initial_state @ [Goto ''c.html'']\<rparr>) \<and>
   w_goto siteC ''b.html'' = Some pageB \<and>
   None \<notin> snd ` set (p_breadcrumb pageB) \<and>
   parseSite siteC ''b.html'' initial_state
     \<noteq> Inl (TypeError_null_link, initial_state\<lparr>history := history initial_state @ [Goto ''b.html'']\<rparr>)"
proof -
  have gc: "w_goto siteC ''c.html'' = Some pageC"
    by (simp add: siteC_def siteAB_def)
  have nc: "None \<in> snd ` set (p_breadcrumb pageC)"
    by (simp add: pageC_def)
  have dc: "w_decodeURIComponent siteC (p_id pageC) = Some ''/c.html''"
    by (simp add: siteC_def siteAB_def pageC_def)
  have bc: "processBody (p_markdown pageC) = Inr (''text'', [])"
    by code_simp
  have gb: "w_goto siteC ''b.html'' = Some pageB"
    by (simp add: siteC_def siteAB_def)
  have nb: "None \<notin> snd ` set (p_breadcrumb pageB)"
    by (simp add: pageB_def)
  from breadcrumb_without_href_throws [OF gc, of initial_state] nc dc bc
  have 1: "parseSite siteC ''c.html'' initial_state
     = Inl (TypeError_null_link, initial_state\<lparr>history := history initial_state @ [Goto ''c.html'']\<rparr>)"
    by blast
  from breadcrumb_without_href_throws [OF gb, of initial_state] nb
  have 2: "parseSite siteC ''b.html'' initial_state
     \<noteq> Inl (TypeError_null_link, initial_state\<lparr>history := history initial_state @ [Goto ''b.html'']\<rparr>)"
    by blast
  from gc nc 1 gb nb 2 show ?thesis by blast
qed


section \<open>Termination of the crawl\<close>

text \<open>The drain loop ends when all links lie in a finite set of targets that is closed under
  the links of its pages: every page processed takes one target out of the unvisited part of
  that set, and every link skipped shortens the rest of the list.\<close>

lemma drain_terminates:
  assumes "finite R" and closed: "\<forall>t\<in>R. page_targets w t \<subseteq> R"
    and "l_link ` set links \<subseteq> R"
  shows "\<exists>r. drain w links i st = Some r"
  using assms(3)
proof (induction "card (R - alreadyParsedIds st)" arbitrary: links i st rule: less_induct)
  case outer: less
  have linksR: "l_link ` set links \<subseteq> R" by fact
  show ?case
  proof (induction "length links - i" arbitrary: i rule: less_induct)
    case less
    show ?case
    proof (cases "length links \<le> i")
      case True
      then show ?thesis by (subst drain.simps) simp
    next
      case False
      let ?l = "l_link (links ! i)"
      have inR: "?l \<in> R" using False linksR by auto
      show ?thesis
      proof (cases "?l \<in> alreadyParsedIds st")
        case True
        have "length links - Suc i < length links - i" using False by simp
        from less[OF this] obtain r where "drain w links (Suc i) st = Some r" by auto
        then show ?thesis using False True by (subst drain.simps) simp
      next
        case unvisited: False
        show ?thesis
        proof (cases "parseSite w ?l st")
          case (Inl err)
          then show ?thesis using False unvisited by (subst drain.simps) simp
        next
          case (Inr res)
          then obtain ep nl st' where r: "parseSite w ?l st = Inr ((ep, nl), st')"
            by (cases res) auto
          have v: "alreadyParsedIds st' = insert ?l (alreadyParsedIds st)"
            using parseSite_Inr(2)[OF r] .
          have "R - alreadyParsedIds st' \<subset> R - alreadyParsedIds st"
            using inR unvisited v by auto
          then have c: "card (R - alreadyParsedIds st') < card (R - alreadyParsedIds st)"
            using assms(1) by (intro psubset_card_mono) auto
          have "l_link ` set nl \<subseteq> R"
            using parseSite_Inr(3)[OF r] closed inR by auto
          then have "l_link ` set (links @ nl) \<subseteq> R" using linksR by auto
          from outer.hyps[OF c this] obtain r' where "drain w (links @ nl) (Suc i) st' = Some r'"
            by auto
          then show ?thesis using False unvisited r by (subst drain.simps) simp
        qed
      qed
    qed
  qed
qed

lemma seed_links:
  assumes "seed w eps acc entryPoints st = Inr ((links, entryPoints'), st')"
  shows "l_link ` set links \<subseteq> l_link ` set acc \<union> (\<Union>t\<in>set eps. page_targets w t)"
  using assms
proof (induction eps arbitrary: acc entryPoints st)
  case Nil
  then show ?case by auto
next
  case (Cons l eps)
  then obtain ep nl st1 where r: "parseSite w l st = Inr ((ep, nl), st1)"
    and s: "seed w eps (acc @ nl) (entryPoints @ [ep]) st1 = Inr ((links, entryPoints'), st')"
    by (auto split: sum.splits prod.splits)
  from Cons.IH[OF s] parseSite_Inr(3)[OF r] show ?case by auto
qed

lemma crawl_terminates:
  assumes "finite (reachable w eps)"
  shows "\<exists>r. crawl w eps = Some r"
proof (cases "seed w eps [] [] initial_state")
  case (Inl err)
  then show ?thesis by (simp add: crawl_def)
next
  case (Inr res)
  then obtain links entryPoints st
    where s: "seed w eps [] [] initial_state = Inr ((links, entryPoints), st)"
    by (cases res) auto
  show ?thesis
  proof (cases "writeEntryPointFile w entryPoints st")
    case (Inl err)
    then show ?thesis using s by (simp add: crawl_def)
  next
    case (Inr res')
    then obtain u st' where wr: "writeEntryPointFile w entryPoints st = Inr (u, st')"
      by (cases res') auto
    have closed: "\<forall>t\<in>reachable w eps. page_targets w t \<subseteq> reachable w eps"
      by (auto intro: reachable.step)
    have "l_link ` set links \<subseteq> reachable w eps"
    proof
      fix t assume "t \<in> l_link ` set links"
      with seed_links[OF s] obtain e where "e \<in> set eps" "t \<in> page_targets w e" by auto
      then show "t \<in> reachable w eps"
        using reachable.entry reachable.step by blast
    qed
    from drain_terminates[OF assms closed this]
    obtain r where "drain w links 0 st' = Some r" by blast
    then show ?thesis using s wr by (simp add: crawl_def)
  qed
qed




text \<open>Finitely many reachable pages declare finitely many targets.\<close>

lemma finite_page_links: "finite (page_links content)"
  by (simp add: page_links_def split: sum.splits)

lemma reachable_subset_pages:
  "reachable w eps \<subseteq> set eps \<union> (\<Union>content\<in>reachable_pages w eps. page_links content)"
proof
  fix t assume "t \<in> reachable w eps"
  then show "t \<in> set eps \<union> (\<Union>content\<in>reachable_pages w eps. page_links content)"
  proof (cases rule: reachable.cases)
    case entry
    then show ?thesis by simp
  next
    case (step t0)
    then obtain content where c: "w_goto w t0 = Some content" and l: "t \<in> page_links content"
      by (auto simp: page_targets_def split: option.splits)
    from step(1) c have "content \<in> reachable_pages w eps"
      by (auto simp: reachable_pages_def)
    with l show ?thesis by blast
  qed
qed

lemma finite_reachable:
  assumes "finite (reachable_pages w eps)"
  shows "finite (reachable w eps)"
proof -
  have "finite (set eps \<union> (\<Union>content\<in>reachable_pages w eps. page_links content))"
    using assms finite_page_links by auto
  with reachable_subset_pages show ?thesis by (rule finite_subset)
qed




lemma main_terminates:
  "finite (reachable_pages w ENTRY_POINTS) \<Longrightarrow> \<exists>r. main w = Some r"
  unfolding main_def by (intro crawl_terminates finite_reachable)


section \<open>Link Extractor and link rewriting: properties\<close>


































end
